theory Spec2Isabelle
  imports Complex_Main
begin

section \<open>Arrays\<close>

text \<open>
  A two-dimensional numpy array carries its shape with it, so that an array with no rows
  still knows its number of columns. The model keeps the shape next to the rows
  (row-major, as \<open>x[i, j]\<close> reads it). Arithmetic is over the reals and the complex
  numbers; rounding of the machine's floating point is outside this development.
\<close>

record 'a ndarray =
  shape0 :: nat
  shape1 :: nat
  rows :: "'a list list"

definition wf_array :: "'a ndarray \<Rightarrow> bool" where
  "wf_array a \<longleftrightarrow> length (rows a) = shape0 a \<and> list_all (\<lambda>r. length r = shape1 a) (rows a)"

definition column :: "nat \<Rightarrow> 'a ndarray \<Rightarrow> 'a list" where
  \<comment> \<open>\<open>a[:, j]\<close>\<close>
  "column j a = map (\<lambda>r. r ! j) (rows a)"

definition take_columns :: "'a ndarray \<Rightarrow> nat list \<Rightarrow> 'a ndarray" where
  \<comment> \<open>\<open>a[:, js]\<close> for a list \<open>js\<close> of column indices\<close>
  "take_columns a js =
     \<lparr>shape0 = shape0 a, shape1 = length js, rows = map (\<lambda>r. map (\<lambda>j. r ! j) js) (rows a)\<rparr>"

definition array_sub :: "('a::minus) ndarray \<Rightarrow> 'a ndarray \<Rightarrow> 'a ndarray" where
  \<comment> \<open>elementwise difference of two arrays of one shape\<close>
  "array_sub a b =
     \<lparr>shape0 = shape0 a, shape1 = shape1 a,
      rows = map2 (\<lambda>r s. map2 (\<lambda>x y. x - y) r s) (rows a) (rows b)\<rparr>"

section \<open>Co-array\<close>

definition pair_idx :: "nat \<Rightarrow> (nat \<times> nat) list" where
  \<comment> \<open>\<open>[(i, j) for i in range(n-1) for j in range(i+1, n)]\<close>\<close>
  "pair_idx n = concat (map (\<lambda>i. map (\<lambda>j. (i, j)) [i + 1..<n]) [0..<n - 1])"

definition co_array :: "('a::minus) ndarray \<Rightarrow> 'a ndarray" where
  "co_array rij =
     (let idx = pair_idx (shape1 rij)
      in array_sub (take_columns rij (map fst idx)) (take_columns rij (map snd idx)))"

definition lex_less :: "nat \<times> nat \<Rightarrow> nat \<times> nat \<Rightarrow> bool" where
  \<comment> \<open>the lexicographic order of pairs \<open>(i, j)\<close>\<close>
  "lex_less p q \<longleftrightarrow> fst p < fst q \<or> (fst p = fst q \<and> snd p < snd q)"

section \<open>Errors\<close>

text \<open>
  The exceptions of Python and numpy that the modelled code can meet. \<open>NotFinite\<close> is no
  exception: it marks a result that numpy fills with \<open>nan\<close> or \<open>inf\<close> after a warning (a
  division by a zero sample count), where the model, whose numbers are the reals, stops.
\<close>

datatype error = AxisError | ValueError | IndexError | ZeroDivisionError | OverflowError | NotFinite

section \<open>The normalised Fourier transform pair\<close>

text \<open>
  \<open>numpy.fft.fft\<close> and \<open>numpy.fft.ifft\<close> are the library's: along the chosen axis the
  input is cropped or padded with zeros to \<open>n\<close> samples, and
  \<open>A[k] = \<Sum>m<n. a[m] exp(\<mp> 2\<pi>i mk/n)\<close>; without a normalisation mode the inverse
  is scaled by \<open>1/n\<close>, with \<open>ortho\<close> both directions are scaled by \<open>1/sqrt n\<close>. Fewer than one
  data point is a \<open>ValueError\<close>, an axis outside the rank an \<open>AxisError\<close>.
\<close>

datatype direction = Forward | Backward

datatype norm_mode = NoNorm | Ortho

definition resize :: "nat \<Rightarrow> complex list \<Rightarrow> complex list" where
  "resize n xs = take n xs @ replicate (n - length xs) 0"

definition twiddle :: "direction \<Rightarrow> nat \<Rightarrow> nat \<Rightarrow> nat \<Rightarrow> complex" where
  "twiddle dir n k m =
     (case dir of Forward \<Rightarrow> cis (- (2 * pi * real (k * m) / real n))
                | Backward \<Rightarrow> cis (2 * pi * real (k * m) / real n))"

definition dft_sum :: "direction \<Rightarrow> complex list \<Rightarrow> complex list" where
  "dft_sum dir xs =
     (let n = length xs
      in map (\<lambda>k. \<Sum>m\<leftarrow>[0..<n]. xs ! m * twiddle dir n k m) [0..<n])"

definition fft_scale :: "direction \<Rightarrow> norm_mode \<Rightarrow> nat \<Rightarrow> complex" where
  "fft_scale dir nm n =
     (case nm of Ortho \<Rightarrow> 1 / complex_of_real (sqrt (real n))
                 | NoNorm \<Rightarrow> (case dir of Forward \<Rightarrow> 1 | Backward \<Rightarrow> 1 / of_nat n))"

definition fft_vec :: "direction \<Rightarrow> norm_mode \<Rightarrow> nat \<Rightarrow> complex list \<Rightarrow> complex list" where
  "fft_vec dir nm n xs = map (\<lambda>z. z * fft_scale dir nm n) (dft_sum dir (resize n xs))"

definition columns :: "'a ndarray \<Rightarrow> 'a list list" where
  "columns a = map (\<lambda>j. column j a) [0..<shape1 a]"

definition from_columns :: "nat \<Rightarrow> 'a list list \<Rightarrow> 'a ndarray" where
  "from_columns m cs =
     \<lparr>shape0 = m, shape1 = length cs, rows = map (\<lambda>i. map (\<lambda>c. c ! i) cs) [0..<m]\<rparr>"

definition map_array :: "('a \<Rightarrow> 'b) \<Rightarrow> 'a ndarray \<Rightarrow> 'b ndarray" where
  "map_array f a = \<lparr>shape0 = shape0 a, shape1 = shape1 a, rows = map (map f) (rows a)\<rparr>"

definition shape_at :: "'a ndarray \<Rightarrow> nat \<Rightarrow> nat" where
  \<comment> \<open>\<open>a.shape[ax]\<close> for \<open>ax\<close> 0 or 1\<close>
  "shape_at a ax = (if ax = 0 then shape0 a else shape1 a)"

definition np_fft ::
  "direction \<Rightarrow> complex ndarray \<Rightarrow> int option \<Rightarrow> int \<Rightarrow> norm_mode \<Rightarrow> error + complex ndarray" where
  "np_fft dir a n axis nm =
     (if axis < - 2 \<or> 2 \<le> axis then Inl AxisError
      else let ax = nat (axis mod 2);
               len = (case n of None \<Rightarrow> int (shape_at a ax) | Some k \<Rightarrow> k)
           in if len < 1 then Inl ValueError
              else if ax = 0
                then Inr (from_columns (nat len) (map (fft_vec dir nm (nat len)) (columns a)))
                else Inr \<lparr>shape0 = shape0 a, shape1 = nat len,
                          rows = map (fft_vec dir nm (nat len)) (rows a)\<rparr>)"

definition ft :: "complex ndarray \<Rightarrow> int option \<Rightarrow> int \<Rightarrow> norm_mode \<Rightarrow> error + complex ndarray" where
  \<comment> \<open>\<open>fft(x, n, axis, norm)/N[axis]\<close> with \<open>N = x.shape\<close>\<close>
  "ft x n axis nm =
     (case np_fft Forward x n axis nm of
        Inl e \<Rightarrow> Inl e
      | Inr X \<Rightarrow>
          (let N = shape_at x (nat (axis mod 2))
           in if N = 0 then Inl NotFinite else Inr (map_array (\<lambda>z. z / of_nat N) X)))"

datatype ift_result = Complex_array "complex ndarray" | Real_array "real ndarray"

definition ift ::
  "complex ndarray \<Rightarrow> int option \<Rightarrow> int \<Rightarrow> norm_mode \<Rightarrow> bool \<Rightarrow> error + ift_result" where
  \<comment> \<open>\<open>ifft(X, n, axis, norm)*N[axis]\<close> with \<open>N = X.shape\<close>, then the real part unless
      \<open>allowComplex\<close>\<close>
  "ift X n axis nm allowComplex =
     (case np_fft Backward X n axis nm of
        Inl e \<Rightarrow> Inl e
      | Inr x0 \<Rightarrow>
          (let N = shape_at X (nat (axis mod 2));
               x = map_array (\<lambda>z. z * of_nat N) x0
           in if allowComplex then Inr (Complex_array x) else Inr (Real_array (map_array Re x))))"

definition mean :: "('a::field) list \<Rightarrow> 'a" where
  \<comment> \<open>the arithmetic mean of a non-empty list\<close>
  "mean xs = sum_list xs / of_nat (length xs)"

definition lanes :: "nat \<Rightarrow> 'a ndarray \<Rightarrow> 'a list list" where
  \<comment> \<open>the one-dimensional series of an array along axis 0 (its columns) or 1 (its rows)\<close>
  "lanes ax a = (if ax = 0 then columns a else rows a)"

definition bind_err :: "error + 'a \<Rightarrow> ('a \<Rightarrow> error + 'b) \<Rightarrow> error + 'b" where
  \<comment> \<open>run the next step on the value of the first, unless the first raised\<close>
  "bind_err r f = (case r of Inl e \<Rightarrow> Inl e | Inr v \<Rightarrow> f v)"

definition ift_real :: "complex ndarray \<Rightarrow> error + real ndarray" where
  \<comment> \<open>the call \<open>ift(X, allowComplex=False)\<close>, whose result is a real array\<close>
  "ift_real X =
     bind_err (ift X None 0 NoNorm False)
       (\<lambda>r. case r of Real_array x \<Rightarrow> Inr x | Complex_array z \<Rightarrow> Inr (map_array Re z))"

section \<open>Band-pass filter\<close>

definition round_half_even :: "real \<Rightarrow> int" where
  \<comment> \<open>\<open>numpy.round(v, decimals=0).astype('int64')\<close>: to the nearest integer, a tie to the even one\<close>
  "round_half_even v =
     (let f = \<lfloor>v\<rfloor>; d = v - of_int f
      in if d < 1 / 2 then f else if 1 / 2 < d then f + 1 else if even f then f else f + 1)"

definition py_range :: "int \<Rightarrow> int \<Rightarrow> int list" where
  \<comment> \<open>\<open>list(range(a, b))\<close>\<close>
  "py_range a b = [a..b - 1]"

definition zero_rows :: "complex ndarray \<Rightarrow> int list \<Rightarrow> error + complex ndarray" where
  \<comment> \<open>\<open>X[idxx] = 0\<close> for a list of row indices: an index below zero counts from the end, an
      index outside the array is an \<open>IndexError\<close>\<close>
  "zero_rows X idxx =
     (let N = int (shape0 X)
      in if list_all (\<lambda>i. - N \<le> i \<and> i < N) idxx
         then Inr \<lparr>shape0 = shape0 X, shape1 = shape1 X,
                   rows = map (\<lambda>k. if int k \<in> set (map (\<lambda>i. i mod N) idxx)
                                     then replicate (shape1 X) 0 else rows X ! k)
                              [0..<shape0 X]\<rparr>
         else Inl IndexError)"

definition band_indices :: "int \<Rightarrow> real \<times> real \<Rightarrow> int list" where
  \<comment> \<open>the sorted band as bin indices, then the corner indices \<open>idx_one\<close> and the list \<open>idxx\<close> of
      the bins to set to zero, for \<open>N\<close> samples\<close>
  "band_indices N band =
     (let lo = min (fst band) (snd band); hi = max (fst band) (snd band);
          b = (if N mod 2 \<noteq> 0
               then [round_half_even (lo * of_int (N - 1) / 2), round_half_even (hi * of_int (N - 1) / 2)]
               else [round_half_even (lo * of_int N / 2), round_half_even (hi * of_int N / 2)]);
          Nyq = (if N mod 2 \<noteq> 0 then (N + 1) div 2 else N div 2);
          idx_temp = (if N mod 2 \<noteq> 0 then 2 * Nyq - b ! 1 else 2 * Nyq - b ! 1 + 1);
          idx_one = b @ [idx_temp - 1, N - b ! 0 + 1 - 1]
      in py_range 0 (idx_one ! 0) @ py_range (idx_one ! 1 + 1) (idx_one ! 2)
           @ py_range (idx_one ! 3 + 1) N)"

definition bpf :: "real ndarray \<Rightarrow> real \<times> real \<Rightarrow> error + (real ndarray \<times> complex ndarray)" where
  "bpf x band =
     bind_err (ft (map_array complex_of_real x) None 0 NoNorm)
       (\<lambda>X. bind_err (zero_rows X (band_indices (int (shape0 x)) band))
          (\<lambda>X_bpf. bind_err (ift_real X_bpf) (\<lambda>x_bpf. Inr (x_bpf, X_bpf))))"

definition nyquist_bin :: "nat \<Rightarrow> nat \<Rightarrow> bool" where
  \<comment> \<open>the bins at the upper end of the spectrum of \<open>N\<close> samples: the Nyquist bin \<open>N/2\<close> for an
      even \<open>N\<close>, the highest frequency \<open>(N-1)/2\<close> and its mirror \<open>(N+1)/2\<close> for an odd one\<close>
  "nyquist_bin N k \<longleftrightarrow> (if even N then k = N div 2 else k = (N - 1) div 2 \<or> k = (N + 1) div 2)"

section \<open>Pure-state filter\<close>

text \<open>
  A floating-point division does not raise: a zero divisor gives \<open>nan\<close> for \<open>0/0\<close> and an
  infinity otherwise, after a warning. The values of the coherence vector are therefore reals
  or one of these three.
\<close>

datatype fval = Fin real | PosInf | NegInf | NaN

definition fdiv :: "real \<Rightarrow> real \<Rightarrow> fval" where
  "fdiv a b = (if b \<noteq> 0 then Fin (a / b) else if a = 0 then NaN else if 0 < a then PosInf else NegInf)"

definition in_unit_interval :: "fval \<Rightarrow> bool" where
  "in_unit_interval v = (case v of Fin r \<Rightarrow> 0 \<le> r \<and> r \<le> 1 | _ \<Rightarrow> False)"

definition py_slice :: "int \<Rightarrow> int \<Rightarrow> 'a list \<Rightarrow> 'a list" where
  \<comment> \<open>\<open>xs[a:b]\<close>: a negative bound counts from the end, and both are clipped to the list\<close>
  "py_slice a b xs =
     (let n = int (length xs);
          a' = (if a < 0 then max (a + n) 0 else min a n);
          b' = (if b < 0 then max (b + n) 0 else min b n)
      in take (nat (b' - a')) (drop (nat a') xs))"

definition bartlett :: "int \<Rightarrow> real list" where
  \<comment> \<open>\<open>numpy.bartlett(M)\<close>: empty below one point, \<open>[1]\<close> for one, else the triangle
      \<open>1 - |2k - (M-1)|/(M-1)\<close> for \<open>k = 0, \<dots>, M-1\<close>\<close>
  "bartlett M =
     (if M < 1 then [] else if M = 1 then [1]
      else map (\<lambda>k. 1 - \<bar>2 * real_of_int k - real_of_int (M - 1)\<bar> / real_of_int (M - 1)) [0..M - 1])"

definition triang :: "int \<Rightarrow> real list" where
  \<comment> \<open>\<open>bartlett(N+2)[1:-1]\<close>\<close>
  "triang N = py_slice 1 (- 1) (bartlett (N + 2))"

definition Sidx :: "nat \<Rightarrow> (nat \<times> nat) list" where
  \<comment> \<open>\<open>[(i, j) for i in range(d) for j in range(i, d)]\<close>\<close>
  "Sidx d = concat (map (\<lambda>i. map (\<lambda>j. (i, j)) [i..<d]) [0..<d])"

definition spectral_row :: "nat \<Rightarrow> complex list \<Rightarrow> complex list" where
  \<comment> \<open>the entries \<open>X[a] * conj(X[b])\<close> of the outer product, for the pairs of \<open>Sidx\<close>\<close>
  "spectral_row d Xi = map (\<lambda>p. Xi ! fst p * cnj (Xi ! snd p)) (Sidx d)"

definition convolve_full :: "real list \<Rightarrow> complex list list \<Rightarrow> nat \<Rightarrow> complex list list" where
  \<comment> \<open>\<open>convolve2d(S, win.reshape(-1,1), mode='full')\<close> for a stack \<open>S\<close> with \<open>nc\<close> columns: every
      column is convolved with the window, \<open>out[r] = \<Sum>j. win[j] * S[r - j]\<close> over the rows that
      exist\<close>
  "convolve_full win S nc =
     map (\<lambda>r. map (\<lambda>c. \<Sum>j\<leftarrow>[0..<length win].
                          if j \<le> r \<and> r - j < length S then complex_of_real (win ! j) * S ! (r - j) ! c
                          else 0)
                   [0..<nc])
         [0..<length S + length win - 1]"

definition Ssmooth ::
  "complex list list \<Rightarrow> int \<Rightarrow> int \<Rightarrow> (int \<Rightarrow> real list) \<Rightarrow> nat \<Rightarrow> complex list list" where
  \<comment> \<open>\<open>n\<close> passes of the convolution, each cut back by \<open>[w//2:-w//2+1]\<close>\<close>
  "Ssmooth S w n window nc =
     ((\<lambda>S. py_slice (w div 2) ((- w) div 2 + 1) (convolve_full (window w) S nc)) ^^ nat n) S"

definition didx :: "nat \<Rightarrow> nat list" where
  \<comment> \<open>the positions of the diagonal pairs in \<open>Sidx\<close>\<close>
  "didx d = filter (\<lambda>i. fst (Sidx d ! i) = snd (Sidx d ! i)) [0..<length (Sidx d)]"

definition trS :: "nat \<Rightarrow> complex list \<Rightarrow> real" where
  \<comment> \<open>the square of the trace: \<open>sum(S[:,didx].real.T)**2\<close>, for one frequency\<close>
  "trS d s = (\<Sum>q\<leftarrow>didx d. Re (s ! q))\<^sup>2"

definition trS2 :: "nat \<Rightarrow> complex list \<Rightarrow> real" where
  \<comment> \<open>the trace of the square: \<open>S = (S*conj(S)*2).real\<close>, \<open>S[:,didx] /= 2\<close>, \<open>sum(S.T)\<close>, for one
      frequency\<close>
  "trS2 d s =
     (\<Sum>q\<leftarrow>[0..<length s]. if q \<in> set (didx d) then Re (s ! q * cnj (s ! q) * 2) / 2
                            else Re (s ! q * cnj (s ! q) * 2))"

definition smoothed_stack ::
  "real ndarray \<Rightarrow> int \<Rightarrow> int \<Rightarrow> (int \<Rightarrow> real list) option \<Rightarrow> error + complex list list" where
  \<comment> \<open>the stack of spectral matrices of \<open>psf\<close> after smoothing, one row for each frequency\<close>
  "smoothed_stack x w n window =
     bind_err (ft (map_array complex_of_real x) None 0 NoNorm)
       (\<lambda>X0. let N = shape0 x; d = shape1 x;
                  X = take (N div 2 + 1) (rows X0);
                  S = map (spectral_row d) X;
                  win = (case window of None \<Rightarrow> triang | Some f \<Rightarrow> f)
              in Inr (Ssmooth S w n win (length (Sidx d))))"

definition coherence :: "nat \<Rightarrow> complex list \<Rightarrow> fval" where
  \<comment> \<open>\<open>(d*trS2 - trS)/((d-1)*trS)\<close>, for one frequency\<close>
  "coherence d s = fdiv (real d * trS2 d s - trS d s) ((real d - 1) * trS d s)"

definition psf_P ::
  "real ndarray \<Rightarrow> int \<Rightarrow> int \<Rightarrow> (int \<Rightarrow> real list) option \<Rightarrow> error + fval list" where
  \<comment> \<open>the coherence vector \<open>P\<close> that \<open>psf(x, p, w, n, window)\<close> returns as its second result; the
      contrast \<open>p\<close> enters only the filtered series\<close>
  "psf_P x w n window =
     bind_err (smoothed_stack x w n window)
       (\<lambda>S. let P = map (coherence (shape1 x)) S
             in if P = [] then Inl IndexError
                else let P0 = P[0 := Fin 0]
                     in if shape0 x mod 2 \<noteq> 0 then Inr P0
                        else Inr (P0[length P0 - 1 := Fin 0]))"

text \<open>
  The invariant of the smoothed stack. A row of the stack holds the upper triangle of a
  Hermitian matrix \<open>G\<close>; what the bounds on the coherence need is that every diagonal entry of \<open>G\<close>
  is real and not negative and that every \<open>2 \<times> 2\<close> minor is not negative.
\<close>

definition psd2 :: "(nat \<Rightarrow> nat \<Rightarrow> complex) \<Rightarrow> bool" where
  "psd2 G \<longleftrightarrow> (\<forall>a b. Im (G a a) = 0 \<and> 0 \<le> Re (G a a) \<and> (cmod (G a b))\<^sup>2 \<le> Re (G a a) * Re (G b b))"

definition psd_row :: "nat \<Rightarrow> complex list \<Rightarrow> bool" where
  "psd_row d s \<longleftrightarrow> (\<exists>G. psd2 G \<and> s = map (\<lambda>p. G (fst p) (snd p)) (Sidx d))"

section \<open>Properties of the co-array\<close>

lemma pair_idx_from_length:
  "length (concat (map (\<lambda>i. map (\<lambda>j. (i, j)) [i + 1..<n]) [a..<b])) * 2 + (n - b) * (n - b - 1)
     = (n - a) * (n - a - 1)" if "b \<le> n - 1" "a \<le> b"
  using that
proof (induction "b - a" arbitrary: a)
  case 0
  then show ?case by simp
next
  case (Suc k)
  let ?L = "\<lambda>a. length (concat (map (\<lambda>i. map (\<lambda>j. (i, j)) [i + 1..<n]) [a..<b]))"
  let ?c = "(n - b) * (n - b - 1)"
  from Suc have u: "[a..<b] = a # [Suc a..<b]" by (simp add: upt_conv_Cons)
  have ih: "?L (Suc a) * 2 + ?c = (n - Suc a) * (n - Suc a - 1)"
  proof (rule Suc.hyps(1))
    show "k = b - Suc a" using Suc.hyps(2) by arith
    show "b \<le> n - 1" by (rule Suc.prems(1))
    show "Suc a \<le> b" using Suc.hyps(2) by arith
  qed
  define m where "m = n - a - 2"
  have m: "n - a = Suc (Suc m)" using Suc.hyps(2) Suc.prems(1) unfolding m_def by arith
  have m': "n - Suc a = Suc m" using m by arith
  have e1: "?L (Suc a) * 2 + ?c = Suc m * m" using ih by (simp only: m' diff_Suc_1)
  have "?L a = Suc m + ?L (Suc a)" by (simp add: u m')
  then have "?L a * 2 + ?c = Suc (Suc m) * Suc m" using e1 by simp
  then show ?case by (simp only: m diff_Suc_1)
qed

lemma pair_idx_length: "length (pair_idx n) = n * (n - 1) div 2"
proof -
  have "length (pair_idx n) * 2 + (n - (n - 1)) * (n - (n - 1) - 1) = (n - 0) * (n - 0 - 1)"
    unfolding pair_idx_def by (rule pair_idx_from_length) simp_all
  moreover have "(n - (n - 1)) * (n - (n - 1) - 1) = 0" by (cases n) simp_all
  ultimately show ?thesis by simp
qed

lemma pair_idx_mem: "(i, j) \<in> set (pair_idx n) \<longleftrightarrow> i < j \<and> j < n"
proof
  assume "(i, j) \<in> set (pair_idx n)"
  then show "i < j \<and> j < n" by (auto simp: pair_idx_def)
next
  assume a: "i < j \<and> j < n"
  then have "i \<in> set [0..<n - 1]" by auto
  then have "(\<lambda>i. map (\<lambda>j. (i, j)) [i + 1..<n]) i \<in> (\<lambda>i. map (\<lambda>j. (i, j)) [i + 1..<n]) ` set [0..<n - 1]"
    by (rule imageI)
  then have m1: "map (\<lambda>j. (i, j)) [i + 1..<n] \<in> set (map (\<lambda>i. map (\<lambda>j. (i, j)) [i + 1..<n]) [0..<n - 1])"
    by (simp only: set_map)
  have m2: "(i, j) \<in> set (map (\<lambda>j. (i, j)) [i + 1..<n])" using a by auto
  show "(i, j) \<in> set (pair_idx n)"
    unfolding pair_idx_def set_concat using m1 m2 by (rule UN_I)
qed

lemma pair_idx_sorted_from:
  "sorted_wrt lex_less (concat (map (\<lambda>i. map (\<lambda>j. (i, j)) [i + 1..<n]) [a..<b]))"
proof (induction "b - a" arbitrary: a)
  case 0
  then show ?case by simp
next
  case (Suc k)
  then have u: "[a..<b] = a # [Suc a..<b]" by (simp add: upt_conv_Cons)
  have ih: "sorted_wrt lex_less (concat (map (\<lambda>i. map (\<lambda>j. (i, j)) [i + 1..<n]) [Suc a..<b]))"
    using Suc by (intro Suc.hyps(1)) arith
  have s1: "sorted_wrt lex_less (map (\<lambda>j. (a, j)) [a + 1..<n])"
    by (simp add: sorted_wrt_map lex_less_def)
  show ?case using ih s1 by (auto simp: u sorted_wrt_append lex_less_def)
qed

lemma pair_idx_sorted: "sorted_wrt lex_less (pair_idx n)"
  unfolding pair_idx_def by (rule pair_idx_sorted_from)

lemma co_array_rows:
  "rows (co_array rij) =
     map (\<lambda>r. map (\<lambda>p. r ! fst p - r ! snd p) (pair_idx (shape1 rij))) (rows rij)"
  by (simp add: co_array_def Let_def array_sub_def take_columns_def zip_map_map map2_map_map
      zip_same_conv_map)

lemma co_array_shape: "shape0 (co_array rij) = shape0 rij" "shape1 (co_array rij) = length (pair_idx (shape1 rij))"
  by (simp_all add: co_array_def Let_def array_sub_def take_columns_def)

text \<open>
  C3: for a \<open>d \<times> n\<close> coordinate matrix with \<open>n \<ge> 2\<close> the co-array has \<open>n(n-1)/2\<close> columns, and
  its \<open>k\<close>-th column is the difference of the columns \<open>i\<^sub>k\<close> and \<open>j\<^sub>k\<close> of the input, where
  \<open>(i\<^sub>k, j\<^sub>k)\<close> is the \<open>k\<close>-th entry of the enumeration of all pairs \<open>i < j < n\<close> in strictly
  increasing lexicographic order.
\<close>

theorem co_array_enumerates_pairs:
  fixes rij :: "real ndarray"
  assumes "wf_array rij" and "2 \<le> shape1 rij"
  shows "wf_array (co_array rij) \<and> shape0 (co_array rij) = shape0 rij
       \<and> shape1 (co_array rij) = shape1 rij * (shape1 rij - 1) div 2
       \<and> sorted_wrt lex_less (pair_idx (shape1 rij))
       \<and> set (pair_idx (shape1 rij)) = {(i, j). i < j \<and> j < shape1 rij}
       \<and> (\<forall>k < shape1 rij * (shape1 rij - 1) div 2.
            column k (co_array rij) =
              map2 (\<lambda>x y. x - y) (column (fst (pair_idx (shape1 rij) ! k)) rij)
                                 (column (snd (pair_idx (shape1 rij) ! k)) rij))"
proof -
  have "wf_array (co_array rij)"
    using assms(1) by (simp add: wf_array_def co_array_shape co_array_rows list_all_iff)
  moreover have "set (pair_idx (shape1 rij)) = {(i, j). i < j \<and> j < shape1 rij}"
    using pair_idx_mem [of _ _ "shape1 rij"] by auto
  moreover have "column k (co_array rij) =
              map2 (\<lambda>x y. x - y) (column (fst (pair_idx (shape1 rij) ! k)) rij)
                                 (column (snd (pair_idx (shape1 rij) ! k)) rij)"
    if "k < shape1 rij * (shape1 rij - 1) div 2" for k
    using that by (simp add: column_def co_array_rows pair_idx_length zip_map_map map2_map_map
        zip_same_conv_map)
  ultimately show ?thesis
    by (simp add: co_array_shape pair_idx_length pair_idx_sorted)
qed

theorem co_array_enumerates_pairs_witness:
  "wf_array \<lparr>shape0 = 2, shape1 = 3, rows = [[0, 1, 0], [0, 0, 1 :: real]]\<rparr>
   \<and> (2::nat) \<le> 3
   \<and> co_array \<lparr>shape0 = 2, shape1 = 3, rows = [[0, 1, 0], [0, 0, 1 :: real]]\<rparr>
       = \<lparr>shape0 = 2, shape1 = 3, rows = [[-1, 0, 1], [0, -1, -1]]\<rparr>
   \<and> column 1 (co_array \<lparr>shape0 = 2, shape1 = 3, rows = [[0, 1, 0], [0, 0, 1 :: real]]\<rparr>)
       = map2 (\<lambda>x y. x - y) [0, 0] [0, 1]"
proof -
  let ?r = "\<lparr>shape0 = 2, shape1 = 3, rows = [[0, 1, 0], [0, 0, 1 :: real]]\<rparr>"
  have p: "pair_idx 3 = [(0, 1), (0, 2), (1, 2)]" by (simp add: pair_idx_def upt_conv_Cons)
  have w: "wf_array ?r" by (simp add: wf_array_def)
  have s: "2 \<le> shape1 ?r" by simp
  have c: "co_array ?r = \<lparr>shape0 = 2, shape1 = 3, rows = [[-1, 0, 1], [0, -1, -1]]\<rparr>"
    by (simp add: co_array_def p array_sub_def take_columns_def)
  from co_array_enumerates_pairs [OF w s]
  have "\<forall>k < 3. column k (co_array ?r) =
              map2 (\<lambda>x y. x - y) (column (fst (pair_idx 3 ! k)) ?r) (column (snd (pair_idx 3 ! k)) ?r)"
    by simp
  then have "column 1 (co_array ?r) =
              map2 (\<lambda>x y. x - y) (column (fst (pair_idx 3 ! 1)) ?r) (column (snd (pair_idx 3 ! 1)) ?r)"
    by simp
  then have "column 1 (co_array ?r) = map2 (\<lambda>x y. x - y) [0, 0] [0, 1]"
    by (simp add: p column_def)
  with w c show ?thesis by simp
qed

text \<open>
  C9 as stated (a failure for fewer than two sensors) does not hold: on a \<open>2 \<times> 1\<close> matrix
  the call returns the \<open>2 \<times> 0\<close> array.
\<close>

theorem co_array_one_sensor_returns:
  "co_array \<lparr>shape0 = 2, shape1 = 1, rows = [[3], [4 :: real]]\<rparr>
     = \<lparr>shape0 = 2, shape1 = 0, rows = [[], []]\<rparr>"
  by (simp add: co_array_def pair_idx_def array_sub_def take_columns_def)

text \<open>
  C9, amended: \<open>co_array\<close> has no error path; with fewer than two sensors the enumeration of
  pairs is empty and the result is the array with the rows of the input and no columns.
\<close>

theorem co_array_few_sensors:
  fixes rij :: "real ndarray"
  assumes "shape1 rij < 2"
  shows "co_array rij = \<lparr>shape0 = shape0 rij, shape1 = 0, rows = map (\<lambda>r. []) (rows rij)\<rparr>"
proof -
  have "pair_idx (shape1 rij) = []" using assms by (auto simp: pair_idx_def)
  then show ?thesis by (simp add: co_array_def array_sub_def take_columns_def zip_map_map map2_map_map
        zip_same_conv_map)
qed

theorem co_array_few_sensors_witness:
  "(1::nat) < 2 \<and> co_array \<lparr>shape0 = 2, shape1 = 1, rows = [[3], [4 :: real]]\<rparr>
     = \<lparr>shape0 = 2, shape1 = 0, rows = [[], []]\<rparr>"
  using co_array_few_sensors [of "\<lparr>shape0 = 2, shape1 = 1, rows = [[3], [4 :: real]]\<rparr>"] by simp

section \<open>Properties of the transform pair\<close>

lemma root_of_unity_sum:
  fixes d :: int and n :: nat
  assumes "0 < n" "\<bar>d\<bar> < int n"
  shows "(\<Sum>k<n. cis (2 * pi * (real k * real_of_int d) / real n)) = (if d = 0 then of_nat n else 0)"
proof (cases "d = 0")
  case True
  then show ?thesis by simp
next
  case False
  define w where "w = cis (2 * pi * real_of_int d / real n)"
  have pw: "cis (2 * pi * (real k * real_of_int d) / real n) = w ^ k" for k
    by (simp add: w_def DeMoivre algebra_simps)
  have wn: "w ^ n = 1"
  proof -
    have "w ^ n = cis (2 * pi * real_of_int d)" using assms(1) by (simp add: w_def DeMoivre)
    then show ?thesis by (simp add: cis_multiple_2pi)
  qed
  have w1: "w \<noteq> 1"
  proof
    assume "w = 1"
    then have "cos (2 * pi * real_of_int d / real n) = 1"
      by (simp add: w_def complex_eq_iff)
    then obtain j :: int where j: "2 * pi * real_of_int d / real n = real_of_int j * 2 * pi"
      using cos_one_2pi_int by blast
    then have "(2 * pi) * (real_of_int d / real n) = (2 * pi) * real_of_int j" by (simp add: mult_ac)
    then have "real_of_int d / real n = real_of_int j" by (simp only: mult_cancel_left) simp
    then have "real_of_int d = real_of_int j * real n" using assms(1) by (simp add: field_simps)
    then have "real_of_int d = real_of_int (j * int n)" by simp
    then have dj: "d = j * int n" by (simp only: of_int_eq_iff)
    have "j = 0"
    proof (rule ccontr)
      assume "j \<noteq> 0"
      then have "1 \<le> \<bar>j\<bar>" by arith
      then have "int n \<le> \<bar>j\<bar> * int n" by (simp add: mult_le_cancel_right1)
      then show False using assms(2) dj by (simp add: abs_mult)
    qed
    then show False using dj False by simp
  qed
  have "(\<Sum>k<n. w ^ k) = (w ^ n - 1) / (w - 1)" using w1 by (rule geometric_sum)
  then show ?thesis using False by (simp add: pw wn)
qed

lemma twiddle_product:
  "twiddle Backward n t k * twiddle Forward n k m
     = cis (2 * pi * (real k * real_of_int (int t - int m)) / real n)"
  by (simp add: twiddle_def cis_mult algebra_simps diff_divide_distrib add_divide_distrib)

lemma dft_sum_nth:
  "k < length xs \<Longrightarrow> dft_sum dir xs ! k = (\<Sum>m<length xs. xs ! m * twiddle dir (length xs) k m)"
  by (simp add: dft_sum_def Let_def interv_sum_list_conv_sum_set_nat atLeast0LessThan)

lemma length_dft_sum [simp]: "length (dft_sum dir xs) = length xs"
  by (simp add: dft_sum_def Let_def)

lemma dft_sum_inverse:
  assumes "t < length xs"
  shows "dft_sum Backward (dft_sum Forward xs) ! t = of_nat (length xs) * xs ! t"
proof -
  let ?n = "length xs"
  have n0: "0 < ?n" using assms by (cases xs) simp_all
  have "dft_sum Backward (dft_sum Forward xs) ! t
      = (\<Sum>k<?n. (\<Sum>m<?n. xs ! m * twiddle Forward ?n k m) * twiddle Backward ?n t k)"
    using assms by (simp add: dft_sum_nth)
  also have "\<dots> = (\<Sum>k<?n. \<Sum>m<?n. xs ! m * (twiddle Backward ?n t k * twiddle Forward ?n k m))"
  proof (rule sum.cong [OF refl])
    fix k
    have "(\<Sum>m<?n. xs ! m * twiddle Forward ?n k m) * twiddle Backward ?n t k
        = (\<Sum>m<?n. xs ! m * twiddle Forward ?n k m * twiddle Backward ?n t k)"
      by (rule sum_distrib_right)
    also have "\<dots> = (\<Sum>m<?n. xs ! m * (twiddle Backward ?n t k * twiddle Forward ?n k m))"
      by (rule sum.cong [OF refl]) (simp add: mult_ac)
    finally show "(\<Sum>m<?n. xs ! m * twiddle Forward ?n k m) * twiddle Backward ?n t k
        = (\<Sum>m<?n. xs ! m * (twiddle Backward ?n t k * twiddle Forward ?n k m))" .
  qed
  also have "\<dots> = (\<Sum>m<?n. \<Sum>k<?n. xs ! m * (twiddle Backward ?n t k * twiddle Forward ?n k m))"
    by (rule sum.swap)
  also have "\<dots> = (\<Sum>m<?n. xs ! m * (\<Sum>k<?n. cis (2 * pi * (real k * real_of_int (int t - int m)) / real ?n)))"
    by (simp only: twiddle_product sum_distrib_left)
  also have "\<dots> = (\<Sum>m<?n. xs ! m * (if int t - int m = 0 then of_nat ?n else 0))"
  proof (rule sum.cong [OF refl])
    fix m assume "m \<in> {..<?n}"
    then have "\<bar>int t - int m\<bar> < int ?n" using assms by auto
    then have "(\<Sum>k<?n. cis (2 * pi * (real k * real_of_int (int t - int m)) / real ?n))
        = (if int t - int m = 0 then of_nat ?n else 0)"
      by (rule root_of_unity_sum [OF n0])
    then show "xs ! m * (\<Sum>k<?n. cis (2 * pi * (real k * real_of_int (int t - int m)) / real ?n))
        = xs ! m * (if int t - int m = 0 then of_nat ?n else 0)"
      by (simp only:)
  qed
  also have "\<dots> = (\<Sum>m<?n. if m = t then xs ! m * of_nat ?n else 0)"
    by (rule sum.cong [OF refl]) auto
  also have "\<dots> = xs ! t * of_nat ?n" using assms by (simp add: sum.delta)
  finally show ?thesis by (simp add: mult.commute)
qed

lemma resize_same: "length xs = n \<Longrightarrow> resize n xs = xs"
  by (simp add: resize_def)

lemma length_resize [simp]: "length (resize n xs) = n"
  by (simp add: resize_def)

lemma length_fft_vec [simp]: "length (fft_vec dir nm n xs) = n"
  by (simp add: fft_vec_def)

lemma dft_sum_scale: "dft_sum dir (map (\<lambda>z. z * c) xs) = map (\<lambda>z. z * c) (dft_sum dir xs)"
  by (rule nth_equalityI) (simp_all add: dft_sum_nth sum_distrib_left mult_ac)

lemma roundtrip_vec:
  assumes "length xs = n" "0 < n"
  shows "map (\<lambda>z. z * of_nat n)
           (fft_vec Backward NoNorm n (map (\<lambda>z. z / of_nat n) (fft_vec Forward NoNorm n xs))) = xs"
proof (rule nth_equalityI)
  show "length (map (\<lambda>z. z * of_nat n)
           (fft_vec Backward NoNorm n (map (\<lambda>z. z / of_nat n) (fft_vec Forward NoNorm n xs)))) = length xs"
    using assms by simp
next
  fix t assume "t < length (map (\<lambda>z. z * of_nat n)
           (fft_vec Backward NoNorm n (map (\<lambda>z. z / of_nat n) (fft_vec Forward NoNorm n xs))))"
  then have t: "t < n" by simp
  have f: "fft_vec Forward NoNorm n xs = dft_sum Forward xs"
    using assms by (simp add: fft_vec_def fft_scale_def resize_same)
  have "map (\<lambda>z. z / of_nat n) (dft_sum Forward xs) = map (\<lambda>z. z * (1 / of_nat n)) (dft_sum Forward xs)"
    by simp
  then have b: "fft_vec Backward NoNorm n (map (\<lambda>z. z / of_nat n) (dft_sum Forward xs))
      = map (\<lambda>z. z * (1 / of_nat n)) (map (\<lambda>z. z * (1 / of_nat n)) (dft_sum Backward (dft_sum Forward xs)))"
    using assms by (simp only: fft_vec_def fft_scale_def resize_same length_map length_dft_sum dft_sum_scale
        direction.case norm_mode.case)
  show "map (\<lambda>z. z * of_nat n)
           (fft_vec Backward NoNorm n (map (\<lambda>z. z / of_nat n) (fft_vec Forward NoNorm n xs))) ! t = xs ! t"
    using t assms by (simp add: f b dft_sum_inverse)
qed

lemma columns_from_columns:
  "list_all (\<lambda>c. length c = m) cs \<Longrightarrow> columns (from_columns m cs) = map (\<lambda>c. c) cs"
  by (auto simp: columns_def from_columns_def column_def list_all_iff intro!: nth_equalityI)

lemma from_columns_columns:
  "wf_array a \<Longrightarrow> from_columns (shape0 a) (columns a) = a"
  apply (cases a)
  apply (auto simp: columns_def from_columns_def column_def wf_array_def list_all_iff intro!: nth_equalityI)
  done

lemma columns_map_array: "wf_array a \<Longrightarrow> columns (map_array f a) = map (map f) (columns a)"
  by (simp add: columns_def map_array_def column_def wf_array_def list_all_iff)

lemma map_array_from_columns:
  "list_all (\<lambda>c. length c = m) cs \<Longrightarrow> map_array f (from_columns m cs) = from_columns m (map (map f) cs)"
  by (simp add: map_array_def from_columns_def list_all_iff)

lemma wf_map_array [simp]: "wf_array (map_array f a) = wf_array a"
  by (simp add: wf_array_def map_array_def list_all_iff)

lemma columns_lengths: "wf_array a \<Longrightarrow> list_all (\<lambda>c. length c = shape0 a) (columns a)"
  by (simp add: columns_def column_def wf_array_def list_all_iff)

lemma shape_map_array [simp]:
  "shape0 (map_array f a) = shape0 a" "shape1 (map_array f a) = shape1 a"
  by (simp_all add: map_array_def)

lemma shape_from_columns [simp]:
  "shape0 (from_columns m cs) = m" "shape1 (from_columns m cs) = length cs"
  by (simp_all add: from_columns_def)

lemma ft_default:
  assumes "wf_array x" "0 < shape0 x"
  shows "ft x None 0 NoNorm =
     Inr (from_columns (shape0 x)
            (map (\<lambda>c. map (\<lambda>z. z / of_nat (shape0 x)) (fft_vec Forward NoNorm (shape0 x) c)) (columns x)))"
proof -
  have "list_all (\<lambda>c. length c = shape0 x) (map (fft_vec Forward NoNorm (shape0 x)) (columns x))"
    by (simp add: list_all_iff)
  then show ?thesis
    using assms(2) by (simp add: ft_def np_fft_def shape_at_def map_array_from_columns o_def Let_def)
qed

lemma ift_default:
  assumes "list_all (\<lambda>c. length c = m) cs" "0 < m"
  shows "ift (from_columns m cs) None 0 NoNorm False =
     Inr (Real_array (from_columns m
            (map (\<lambda>c. map (\<lambda>z. Re (z * of_nat m)) (fft_vec Backward NoNorm m c)) cs)))"
proof -
  have 3: "np_fft Backward (from_columns m cs) None 0 NoNorm
      = Inr (from_columns m (map (fft_vec Backward NoNorm m) cs))"
    using assms by (simp add: np_fft_def shape_at_def columns_from_columns)
  show ?thesis
    unfolding ift_def 3 by (simp add: shape_at_def map_array_from_columns list_all_iff o_def)
qed

lemma ift_ft_roundtrip_aux:
  fixes x :: "real ndarray"
  assumes "wf_array x" and "0 < shape0 x"
  shows "bind_err (ft (map_array complex_of_real x) None 0 NoNorm) (\<lambda>X. ift X None 0 NoNorm False)
           = Inr (Real_array x)"
proof -
  let ?xc = "map_array complex_of_real x"
  let ?N = "shape0 x"
  let ?cs = "map (\<lambda>c. map (\<lambda>z. z / of_nat ?N) (fft_vec Forward NoNorm ?N c)) (columns ?xc)"
  have wf: "wf_array ?xc" using assms(1) by simp
  have f: "ft ?xc None 0 NoNorm = Inr (from_columns ?N ?cs)"
    using ft_default [OF wf] assms(2) by simp
  have l: "list_all (\<lambda>c. length c = ?N) ?cs" by (simp add: list_all_iff)
  have i: "ift (from_columns ?N ?cs) None 0 NoNorm False =
     Inr (Real_array (from_columns ?N
            (map (\<lambda>c. map (\<lambda>z. Re (z * of_nat ?N)) (fft_vec Backward NoNorm ?N c)) ?cs)))"
    using l assms(2) by (rule ift_default)
  have cl: "list_all (\<lambda>c. length c = ?N) (columns ?xc)"
    using columns_lengths [OF wf] by simp
  have "map (\<lambda>c. map (\<lambda>z. Re (z * of_nat ?N)) (fft_vec Backward NoNorm ?N c)) ?cs
      = map (\<lambda>c. map (\<lambda>z. Re (z * of_nat ?N)) (fft_vec Backward NoNorm ?N
           (map (\<lambda>z. z / of_nat ?N) (fft_vec Forward NoNorm ?N c)))) (columns ?xc)"
    by (simp only: map_map o_def)
  also have "\<dots> = map (map Re) (columns ?xc)"
  proof (rule map_cong [OF refl])
    fix c assume "c \<in> set (columns ?xc)"
    then have "length c = ?N" using cl by (simp add: list_all_iff)
    then have "map (\<lambda>z. z * of_nat ?N)
           (fft_vec Backward NoNorm ?N (map (\<lambda>z. z / of_nat ?N) (fft_vec Forward NoNorm ?N c))) = c"
      using assms(2) by (rule roundtrip_vec)
    then have "map Re (map (\<lambda>z. z * of_nat ?N) (fft_vec Backward NoNorm ?N
         (map (\<lambda>z. z / of_nat ?N) (fft_vec Forward NoNorm ?N c)))) = map Re c"
      by (simp only:)
    then show "map (\<lambda>z. Re (z * of_nat ?N)) (fft_vec Backward NoNorm ?N
         (map (\<lambda>z. z / of_nat ?N) (fft_vec Forward NoNorm ?N c))) = map Re c"
      by (simp only: map_map o_def)
  qed
  also have "\<dots> = columns x"
    using assms(1) by (simp add: columns_map_array o_def)
  finally have "from_columns ?N
            (map (\<lambda>c. map (\<lambda>z. Re (z * of_nat ?N)) (fft_vec Backward NoNorm ?N c)) ?cs) = x"
    using assms(1) by (simp only: from_columns_columns)
  then show ?thesis by (simp only: bind_err_def f i sum.case)
qed

text \<open>
  C2: for every real matrix with at least one sample, the inverse transform of the forward
  transform (no length given, so nothing is cropped or padded) is the matrix itself. The
  statement is exact, over the reals; the tolerance of the claim is the rounding of the
  floating point.
\<close>

theorem ift_ft_roundtrip:
  fixes x :: "real ndarray"
  assumes "wf_array x" and "0 < shape0 x"
  shows "bind_err (ft (map_array complex_of_real x) None 0 NoNorm) (\<lambda>X. ift X None 0 NoNorm False)
           = Inr (Real_array x)"
  using assms by (rule ift_ft_roundtrip_aux)

theorem ift_ft_roundtrip_witness:
  "wf_array \<lparr>shape0 = 2, shape1 = 1, rows = [[1], [3 :: real]]\<rparr> \<and> (0::nat) < 2
   \<and> bind_err (ft (map_array complex_of_real \<lparr>shape0 = 2, shape1 = 1, rows = [[1], [3]]\<rparr>) None 0 NoNorm)
        (\<lambda>X. ift X None 0 NoNorm False)
      = Inr (Real_array \<lparr>shape0 = 2, shape1 = 1, rows = [[1], [3]]\<rparr>)"
  using ift_ft_roundtrip [of "\<lparr>shape0 = 2, shape1 = 1, rows = [[1], [3 :: real]]\<rparr>"]
  by (simp add: wf_array_def)

lemma wf_from_columns: "list_all (\<lambda>c. length c = m) cs \<Longrightarrow> wf_array (from_columns m cs)"
  by (simp add: wf_array_def from_columns_def list_all_iff)

lemma twiddle_dc [simp]: "twiddle dir n 0 m = 1"
  by (cases dir) (simp_all add: twiddle_def)

lemma dft_sum_dc: "xs \<noteq> [] \<Longrightarrow> dft_sum dir xs ! 0 = sum_list xs"
  by (simp add: dft_sum_nth sum_list_sum_nth atLeast0LessThan)

lemma sum_list_resize: "length v \<le> n \<Longrightarrow> sum_list (resize n v) = sum_list v"
  by (simp add: resize_def sum_list_replicate)

lemma np_fft_axis0:
  assumes "- 2 \<le> axis" "axis < 2" "nat (axis mod 2) = 0"
    and "(case n of None \<Rightarrow> int (shape0 a) | Some k \<Rightarrow> k) = int len" "0 < len"
  shows "np_fft dir a n axis nm = Inr (from_columns len (map (fft_vec dir nm len) (columns a)))"
  using assms by (cases n) (simp_all add: np_fft_def Let_def shape_at_def)

lemma np_fft_axis1:
  assumes "- 2 \<le> axis" "axis < 2" "nat (axis mod 2) = 1"
    and "(case n of None \<Rightarrow> int (shape1 a) | Some k \<Rightarrow> k) = int len" "0 < len"
  shows "np_fft dir a n axis nm =
     Inr \<lparr>shape0 = shape0 a, shape1 = len, rows = map (fft_vec dir nm len) (rows a)\<rparr>"
  using assms by (cases n) (simp_all add: np_fft_def Let_def shape_at_def)

lemma ft_lanes:
  assumes "wf_array x" "- 2 \<le> axis" "axis < 2" "ax = nat (axis mod 2)"
    and "len = (case n of None \<Rightarrow> shape_at x ax | Some k \<Rightarrow> nat k)"
    and "0 < len" "0 < shape_at x ax"
  shows "\<exists>X. ft x n axis nm = Inr X \<and> wf_array X \<and>
     lanes ax X = map (\<lambda>v. map (\<lambda>z. z / of_nat (shape_at x ax)) (fft_vec Forward nm len v)) (lanes ax x)"
proof -
  have l: "(case n of None \<Rightarrow> int (shape_at x ax) | Some k \<Rightarrow> k) = int len"
    using assms(5,6) by (cases n) auto
  have ax: "ax = 0 \<or> ax = 1" using assms(2,3,4) by auto
  show ?thesis
  proof (cases "ax = 0")
    case True
    have la: "list_all (\<lambda>c. length c = len) (map (fft_vec Forward nm len) (columns x))"
      by (simp add: list_all_iff)
    have l0: "(case n of None \<Rightarrow> int (shape0 x) | Some k \<Rightarrow> k) = int len"
      using l True by (cases n) (simp_all add: shape_at_def)
    have a0: "nat (axis mod 2) = 0" using assms(4) True by simp
    have "np_fft Forward x n axis nm = Inr (from_columns len (map (fft_vec Forward nm len) (columns x)))"
      using assms(2,3) a0 l0 assms(6) by (rule np_fft_axis0)
    then have "ft x n axis nm = Inr (map_array (\<lambda>z. z / of_nat (shape_at x ax))
       (from_columns len (map (fft_vec Forward nm len) (columns x))))"
      using assms(7) by (simp add: ft_def Let_def assms(4))
    moreover have "wf_array (map_array (\<lambda>z. z / of_nat (shape_at x ax))
       (from_columns len (map (fft_vec Forward nm len) (columns x))))"
      using la by (simp add: wf_from_columns)
    moreover have "columns (map_array (\<lambda>z. z / of_nat (shape_at x ax))
       (from_columns len (map (fft_vec Forward nm len) (columns x))))
       = map (\<lambda>v. map (\<lambda>z. z / of_nat (shape_at x ax)) (fft_vec Forward nm len v)) (columns x)"
      using la by (simp add: columns_map_array wf_from_columns columns_from_columns)
    ultimately show ?thesis using True by (simp add: lanes_def)
  next
    case False
    then have a1: "ax = 1" using ax by simp
    have l1: "(case n of None \<Rightarrow> int (shape1 x) | Some k \<Rightarrow> k) = int len"
      using l a1 by (cases n) (simp_all add: shape_at_def)
    have a1': "nat (axis mod 2) = 1" using assms(4) a1 by simp
    have "np_fft Forward x n axis nm =
        Inr \<lparr>shape0 = shape0 x, shape1 = len, rows = map (fft_vec Forward nm len) (rows x)\<rparr>"
      using assms(2,3) a1' l1 assms(6) by (rule np_fft_axis1)
    then have "ft x n axis nm = Inr (map_array (\<lambda>z. z / of_nat (shape_at x ax))
       \<lparr>shape0 = shape0 x, shape1 = len, rows = map (fft_vec Forward nm len) (rows x)\<rparr>)"
      using assms(7) by (simp add: ft_def Let_def assms(4))
    moreover have "wf_array (map_array (\<lambda>z. z / of_nat (shape_at x ax))
       \<lparr>shape0 = shape0 x, shape1 = len, rows = map (fft_vec Forward nm len) (rows x)\<rparr>)"
      using assms(1) by (simp add: wf_array_def list_all_iff map_array_def)
    ultimately show ?thesis using a1 by (simp add: lanes_def map_array_def)
  qed
qed

lemma lanes_lengths:
  "wf_array a \<Longrightarrow> ax = 0 \<or> ax = 1 \<Longrightarrow> v \<in> set (lanes ax a) \<Longrightarrow> length v = shape_at a ax"
  by (auto simp: lanes_def shape_at_def columns_def column_def wf_array_def list_all_iff)

lemma fft_vec_plain: "fft_vec Forward NoNorm n v = dft_sum Forward (resize n v)"
  by (simp add: fft_vec_def fft_scale_def)

text \<open>
  C8 as stated does not hold: the divisor is the sample count of the input, not the count
  after padding. A single sample \<open>1\<close> padded to two samples has the mean \<open>1/2\<close>, and the zero
  frequency component that \<open>ft\<close> returns is \<open>1\<close>.
\<close>

theorem ft_padded_dc_is_not_padded_mean:
  "ft \<lparr>shape0 = 1, shape1 = 1, rows = [[1]]\<rparr> (Some 2) 0 NoNorm
     = Inr \<lparr>shape0 = 2, shape1 = 1, rows = [[1], [1]]\<rparr>
   \<and> mean (resize 2 [1]) = 1 / 2"
  by (simp add: ft_def np_fft_def shape_at_def columns_def column_def from_columns_def fft_vec_def
   dft_sum_def resize_def twiddle_def fft_scale_def map_array_def upt_conv_Cons mean_def)

text \<open>
  C8, amended: \<open>ft(x, n, axis)\<close> computes the discrete Fourier transform of every series of
  \<open>x\<close> along \<open>axis\<close>, cropped or padded with zeros to \<open>n\<close> samples, and divides every component
  by the sample count of the input \<open>x.shape[axis]\<close>, whatever \<open>n\<close> is. So when nothing is
  cropped (no \<open>n\<close>, or \<open>n\<close> at least the sample count) the zero frequency component is the mean
  of the input series, without the padding.
\<close>

theorem ft_divides_by_input_count:
  assumes "wf_array x" and "- 2 \<le> axis" and "axis < 2" and "ax = nat (axis mod 2)"
    and "len = (case n of None \<Rightarrow> shape_at x ax | Some k \<Rightarrow> nat k)"
    and "0 < len" and "0 < shape_at x ax"
  shows "\<exists>X. ft x n axis NoNorm = Inr X \<and> wf_array X \<and>
     lanes ax X = map (\<lambda>v. map (\<lambda>z. z / of_nat (shape_at x ax)) (dft_sum Forward (resize len v)))
                     (lanes ax x) \<and>
     (shape_at x ax \<le> len \<longrightarrow> map (\<lambda>V. V ! 0) (lanes ax X) = map mean (lanes ax x))"
proof -
  from ft_lanes [OF assms, of NoNorm] obtain X where
    X: "ft x n axis NoNorm = Inr X" "wf_array X"
       "lanes ax X = map (\<lambda>v. map (\<lambda>z. z / of_nat (shape_at x ax)) (dft_sum Forward (resize len v)))
                     (lanes ax x)"
    by (auto simp: fft_vec_plain)
  have ax: "ax = 0 \<or> ax = 1" using assms(2,3,4) by auto
  have "map (\<lambda>V. V ! 0) (lanes ax X) = map mean (lanes ax x)" if le: "shape_at x ax \<le> len"
  proof -
    have "map (\<lambda>V. V ! 0) (lanes ax X)
        = map (\<lambda>v. map (\<lambda>z. z / of_nat (shape_at x ax)) (dft_sum Forward (resize len v)) ! 0) (lanes ax x)"
      by (simp only: X(3) map_map o_def)
    also have "\<dots> = map mean (lanes ax x)"
    proof (rule map_cong [OF refl])
      fix v assume "v \<in> set (lanes ax x)"
      then have lv: "length v = shape_at x ax" using assms(1) ax by (rule lanes_lengths [rotated 2])
      have ne: "resize len v \<noteq> []" using assms(6) by (metis length_resize list.size(3) less_numeral_extra(3))
      have "map (\<lambda>z. z / of_nat (shape_at x ax)) (dft_sum Forward (resize len v)) ! 0
          = dft_sum Forward (resize len v) ! 0 / of_nat (shape_at x ax)"
        using assms(6) by simp
      also have "\<dots> = sum_list (resize len v) / of_nat (shape_at x ax)"
        using dft_sum_dc [OF ne, of Forward] by simp
      also have "\<dots> = mean v" using le lv by (simp add: sum_list_resize mean_def)
      finally show "map (\<lambda>z. z / of_nat (shape_at x ax)) (dft_sum Forward (resize len v)) ! 0 = mean v" .
    qed
    finally show ?thesis .
  qed
  with X show ?thesis by blast
qed

theorem ft_divides_by_input_count_witness:
  "wf_array \<lparr>shape0 = 1, shape1 = 1, rows = [[1 :: complex]]\<rparr> \<and> - 2 \<le> (0 :: int) \<and> (0 :: int) < 2
   \<and> (\<exists>X. ft \<lparr>shape0 = 1, shape1 = 1, rows = [[1]]\<rparr> (Some 2) 0 NoNorm = Inr X \<and> wf_array X \<and>
        lanes 0 X = map (\<lambda>v. map (\<lambda>z. z / of_nat 1) (dft_sum Forward (resize 2 v)))
                     (lanes 0 \<lparr>shape0 = 1, shape1 = 1, rows = [[1]]\<rparr>) \<and>
        map (\<lambda>V. V ! 0) (lanes 0 X) = map mean (lanes 0 \<lparr>shape0 = 1, shape1 = 1, rows = [[1]]\<rparr>))"
  using ft_divides_by_input_count [of "\<lparr>shape0 = 1, shape1 = 1, rows = [[1]]\<rparr>" 0 0 2 "Some 2"]
  by (simp add: wf_array_def shape_at_def)

section \<open>Properties of the band-pass filter\<close>

lemma round_half_even_int [simp]: "round_half_even (of_int k) = k"
  by (simp add: round_half_even_def)

lemma band_full:
  assumes "0 < N"
  shows "band_indices N (0, 1) = []"
proof (cases "N mod 2 = 0")
  case True
  then have "2 dvd N" by presburger
  then have "real_of_int N / 2 = of_int (N div 2)" by (simp add: real_of_int_div)
  then have r: "round_half_even (real_of_int N / 2) = N div 2" by (simp only: round_half_even_int)
  have z: "round_half_even 0 = 0" using round_half_even_int [of 0] by simp
  have "2 * (N div 2) = N" using True by presburger
  then show ?thesis using True assms
    by (simp add: band_indices_def Let_def py_range_def r z)
next
  case False
  then have "2 dvd (N - 1)" by presburger
  then have "real_of_int (N - 1) / 2 = of_int ((N - 1) div 2)" by (simp add: real_of_int_div)
  then have "round_half_even (real_of_int (N - 1) / 2) = (N - 1) div 2"
    by (simp only: round_half_even_int)
  then have r: "round_half_even ((real_of_int N - 1) / 2) = (N - 1) div 2" by simp
  have z: "round_half_even 0 = 0" using round_half_even_int [of 0] by simp
  have e: "2 * ((N + 1) div 2) - (N - 1) div 2 - 1 \<le> (N - 1) div 2 + 1" "N - (N - 1) div 2 + 1 \<ge> 0"
    using False assms by presburger+
  show ?thesis using False assms e
    by (simp add: band_indices_def Let_def py_range_def r z)
qed

lemma band_nyquist:
  assumes "0 < N"
  shows "band_indices N (1, 1) =
    (if N mod 2 = 0 then py_range 0 (N div 2) @ py_range (N div 2 + 1) N
     else py_range 0 ((N - 1) div 2) @ py_range (2 + (N - 1) div 2) N)"
proof (cases "N mod 2 = 0")
  case True
  then have "2 dvd N" by presburger
  then have "real_of_int N / 2 = of_int (N div 2)" by (simp add: real_of_int_div)
  then have r: "round_half_even (real_of_int N / 2) = N div 2" by (simp only: round_half_even_int)
  have e: "2 * (N div 2) = N" "N - N div 2 = N div 2" using True by presburger+
  show ?thesis using True assms
    by (simp add: band_indices_def Let_def py_range_def r e)
next
  case False
  then have "2 dvd (N - 1)" by presburger
  then have "real_of_int (N - 1) / 2 = of_int ((N - 1) div 2)" by (simp add: real_of_int_div)
  then have "round_half_even (real_of_int (N - 1) / 2) = (N - 1) div 2"
    by (simp only: round_half_even_int)
  then have r: "round_half_even ((real_of_int N - 1) / 2) = (N - 1) div 2" by simp
  have e: "2 * ((N + 1) div 2) - (N - 1) div 2 = (N - 1) div 2 + 2" "N - (N - 1) div 2 = (N - 1) div 2 + 1"
    using False assms by presburger+
  show ?thesis using False assms
    by (simp add: band_indices_def Let_def py_range_def r e)
qed

lemma ft_real_default:
  assumes "wf_array x" "0 < shape0 x"
  shows "\<exists>X. ft (map_array complex_of_real x) None 0 NoNorm = Inr X \<and> wf_array X
           \<and> shape0 X = shape0 x \<and> shape1 X = shape1 x"
proof -
  have wf: "wf_array (map_array complex_of_real x)" using assms(1) by simp
  have "wf_array (from_columns (shape0 x)
            (map (\<lambda>c. map (\<lambda>z. z / of_nat (shape0 x)) (fft_vec Forward NoNorm (shape0 x) c))
                 (columns (map_array complex_of_real x))))"
    by (rule wf_from_columns) (simp add: list_all_iff)
  then show ?thesis using ft_default [OF wf] assms(2) by (simp add: columns_def)
qed

lemma zero_rows_none: "wf_array X \<Longrightarrow> zero_rows X [] = Inr X"
  by (cases X) (simp add: zero_rows_def wf_array_def map_nth)

lemma zero_rows_in_range:
  assumes "list_all (\<lambda>i. 0 \<le> i \<and> i < int (shape0 X)) idxx"
  shows "zero_rows X idxx =
     Inr \<lparr>shape0 = shape0 X, shape1 = shape1 X,
          rows = map (\<lambda>k. if int k \<in> set idxx then replicate (shape1 X) 0 else rows X ! k)
                     [0..<shape0 X]\<rparr>"
proof -
  have "map (\<lambda>i. i mod int (shape0 X)) idxx = idxx"
    using assms by (intro map_idI) (simp add: list_all_iff)
  moreover have "list_all (\<lambda>i. - int (shape0 X) \<le> i \<and> i < int (shape0 X)) idxx"
    using assms by (auto simp: list_all_iff)
  ultimately show ?thesis by (simp add: zero_rows_def Let_def)
qed

lemma ift_real_total:
  assumes "0 < shape0 X"
  shows "\<exists>x. ift_real X = Inr x"
  using assms by (simp add: ift_real_def ift_def np_fft_def shape_at_def bind_err_def Let_def)

lemma nyquist_band_zeroes:
  assumes "0 < N" "k < N"
  shows "int k \<in> set (band_indices (int N) (1, 1)) \<longleftrightarrow> \<not> nyquist_bin N k"
proof (cases "even N")
  case True
  then have m: "int N mod 2 = 0" by presburger
  have "int k \<in> set (band_indices (int N) (1, 1)) \<longleftrightarrow>
      (0 \<le> int k \<and> int k \<le> int N div 2 - 1) \<or> (int N div 2 + 1 \<le> int k \<and> int k \<le> int N - 1)"
    using assms(1) m by (simp add: band_nyquist py_range_def)
  also have "\<dots> \<longleftrightarrow> int k \<noteq> int N div 2" using assms by arith
  also have "\<dots> \<longleftrightarrow> k \<noteq> N div 2" by presburger
  finally show ?thesis using True by (simp add: nyquist_bin_def)
next
  case False
  then have m: "int N mod 2 \<noteq> 0" by presburger
  have "int k \<in> set (band_indices (int N) (1, 1)) \<longleftrightarrow>
      (0 \<le> int k \<and> int k \<le> (int N - 1) div 2 - 1) \<or> (2 + (int N - 1) div 2 \<le> int k \<and> int k \<le> int N - 1)"
    using assms(1) m by (simp add: band_nyquist py_range_def)
  also have "\<dots> \<longleftrightarrow> \<not> (int k = (int N - 1) div 2 \<or> int k = (int N - 1) div 2 + 1)" using assms by arith
  also have "\<dots> \<longleftrightarrow> \<not> (k = (N - 1) div 2 \<or> k = (N + 1) div 2)"
  proof -
    obtain h where h: "N = 2 * h + 1" using False by (auto elim: oddE)
    have 1: "(int N - 1) div 2 = int h" "(N - 1) div 2 = h" "(N + 1) div 2 = h + 1"
      by (simp_all add: h)
    show ?thesis unfolding 1 by auto
  qed
  finally show ?thesis using False by (simp add: nyquist_bin_def)
qed

lemma nyquist_band_in_range:
  assumes "0 < N"
  shows "list_all (\<lambda>i. 0 \<le> i \<and> i < int N) (band_indices (int N) (1, 1))"
proof -
  have "0 \<le> i \<and> i < int N" if "i \<in> set (band_indices (int N) (1, 1))" for i
  proof (cases "int N mod 2 = 0")
    case True
    then have "(0 \<le> i \<and> i \<le> int N div 2 - 1) \<or> (int N div 2 + 1 \<le> i \<and> i \<le> int N - 1)"
      using that assms by (simp add: band_nyquist py_range_def)
    then show ?thesis by arith
  next
    case False
    then have "(0 \<le> i \<and> i \<le> (int N - 1) div 2 - 1) \<or> (2 + (int N - 1) div 2 \<le> i \<and> i \<le> int N - 1)"
      using that assms by (simp add: band_nyquist py_range_def)
    then show ?thesis by arith
  qed
  then show ?thesis by (simp add: list_all_iff)
qed

text \<open>
  C4 as stated does not hold in its second half: with the band \<open>[1, 1]\<close> two samples
  \<open>1, 0\<close> come back as \<open>1/2, -1/2\<close>, and the returned spectrum is zero at the zero frequency
  bin and \<open>1/2\<close> at bin 1, the Nyquist bin.
\<close>

theorem bpf_nyquist_band_drops_dc:
  "bpf \<lparr>shape0 = 2, shape1 = 1, rows = [[1], [0]]\<rparr> (1, 1)
     = Inr (\<lparr>shape0 = 2, shape1 = 1, rows = [[1 / 2], [- 1 / 2]]\<rparr>,
            \<lparr>shape0 = 2, shape1 = 1, rows = [[0], [1 / 2]]\<rparr>)"
proof -
  have b: "band_indices 2 (1, 1) = [0]"
    using band_nyquist [of 2] by (simp add: py_range_def upto.simps)
  have f: "ft (map_array complex_of_real \<lparr>shape0 = 2, shape1 = 1, rows = [[1], [0]]\<rparr>) None 0 NoNorm
      = Inr \<lparr>shape0 = 2, shape1 = 1, rows = [[1 / 2], [1 / 2]]\<rparr>"
    by (simp add: ft_def np_fft_def shape_at_def columns_def column_def from_columns_def fft_vec_def
        dft_sum_def resize_def twiddle_def fft_scale_def map_array_def upt_conv_Cons)
  have z: "zero_rows \<lparr>shape0 = 2, shape1 = 1, rows = [[1 / 2], [1 / 2]]\<rparr> [0]
      = Inr \<lparr>shape0 = 2, shape1 = 1, rows = [[0], [1 / 2]]\<rparr>"
    by (simp add: zero_rows_def upt_conv_Cons)
  have i: "ift_real \<lparr>shape0 = 2, shape1 = 1, rows = [[0], [1 / 2]]\<rparr>
      = Inr \<lparr>shape0 = 2, shape1 = 1, rows = [[1 / 2], [- 1 / 2]]\<rparr>"
    by (simp add: ift_real_def bind_err_def ift_def np_fft_def shape_at_def columns_def column_def
        from_columns_def fft_vec_def dft_sum_def resize_def twiddle_def fft_scale_def map_array_def
        upt_conv_Cons)
  have s: "int (shape0 \<lparr>shape0 = 2, shape1 = 1, rows = [[1 :: real], [0]]\<rparr>) = 2" by simp
  show ?thesis by (simp only: bpf_def s f bind_err_def sum.case b z i)
qed

text \<open>
  C4, amended: for every real matrix with at least one sample, \<open>bpf(x, [0, 1])\<close> returns \<open>x\<close>
  itself, with its spectrum \<open>ft(x)\<close>; and \<open>bpf(x, [1, 1])\<close> returns the series that is the inverse
  transform of the spectrum it returns with it, which is \<open>ft(x)\<close> at the upper end of the
  spectrum (the Nyquist bin \<open>N/2\<close> for an even sample count \<open>N\<close>, the bins \<open>(N-1)/2\<close> and
  \<open>(N+1)/2\<close> for an odd one) and zero at every other bin, the zero frequency bin among them
  as soon as there are two samples.
\<close>

theorem bpf_full_band_and_nyquist_band:
  fixes x :: "real ndarray"
  assumes "wf_array x" and "0 < shape0 x"
  shows "\<exists>X. ft (map_array complex_of_real x) None 0 NoNorm = Inr X
     \<and> bpf x (0, 1) = Inr (x, X)
     \<and> (\<exists>x_bpf X_bpf. bpf x (1, 1) = Inr (x_bpf, X_bpf) \<and> ift_real X_bpf = Inr x_bpf
          \<and> shape0 X_bpf = shape0 x \<and> shape1 X_bpf = shape1 x \<and> length (rows X_bpf) = shape0 x
          \<and> (\<forall>k < shape0 x. rows X_bpf ! k =
                (if nyquist_bin (shape0 x) k then rows X ! k else replicate (shape1 x) 0)))"
proof -
  from ft_real_default [OF assms] obtain X where
    X: "ft (map_array complex_of_real x) None 0 NoNorm = Inr X" "wf_array X"
       "shape0 X = shape0 x" "shape1 X = shape1 x" by blast
  have rt: "ift X None 0 NoNorm False = Inr (Real_array x)"
    using ift_ft_roundtrip_aux [OF assms] X(1) by (simp add: bind_err_def)
  have full: "bpf x (0, 1) = Inr (x, X)"
    using assms(2) by (simp add: bpf_def bind_err_def X(1) band_full zero_rows_none [OF X(2)]
        ift_real_def rt)
  let ?Xb = "\<lparr>shape0 = shape0 X, shape1 = shape1 X,
          rows = map (\<lambda>k. if int k \<in> set (band_indices (int (shape0 x)) (1, 1))
                          then replicate (shape1 X) 0 else rows X ! k) [0..<shape0 X]\<rparr>"
  have zr: "zero_rows X (band_indices (int (shape0 x)) (1, 1)) = Inr ?Xb"
    using nyquist_band_in_range [OF assms(2)] by (intro zero_rows_in_range) (simp add: X(3))
  have "0 < shape0 ?Xb" using assms(2) X(3) by simp
  then obtain xb where xb: "ift_real ?Xb = Inr xb" using ift_real_total by blast
  have nyq: "bpf x (1, 1) = Inr (xb, ?Xb)"
    by (simp add: bpf_def bind_err_def X(1) zr xb)
  have rowsk: "rows ?Xb ! k = (if nyquist_bin (shape0 x) k then rows X ! k else replicate (shape1 x) 0)"
    if "k < shape0 x" for k
    using that nyquist_band_zeroes [OF assms(2) that] by (simp add: X(3,4))
  have "shape0 ?Xb = shape0 x" "shape1 ?Xb = shape1 x" "length (rows ?Xb) = shape0 x"
    by (simp_all add: X(3,4))
  with X(1) full nyq xb rowsk show ?thesis by blast
qed

theorem bpf_full_band_and_nyquist_band_witness:
  "wf_array \<lparr>shape0 = 2, shape1 = 1, rows = [[1], [0 :: real]]\<rparr> \<and> (0 :: nat) < 2
   \<and> (\<exists>X. ft (map_array complex_of_real \<lparr>shape0 = 2, shape1 = 1, rows = [[1], [0]]\<rparr>) None 0 NoNorm
             = Inr X
     \<and> bpf \<lparr>shape0 = 2, shape1 = 1, rows = [[1], [0]]\<rparr> (0, 1)
         = Inr (\<lparr>shape0 = 2, shape1 = 1, rows = [[1], [0]]\<rparr>, X)
     \<and> (\<exists>x_bpf X_bpf. bpf \<lparr>shape0 = 2, shape1 = 1, rows = [[1], [0]]\<rparr> (1, 1) = Inr (x_bpf, X_bpf)
          \<and> ift_real X_bpf = Inr x_bpf
          \<and> rows X_bpf ! 0 = (if nyquist_bin 2 0 then rows X ! 0 else replicate 1 0)
          \<and> rows X_bpf ! 1 = (if nyquist_bin 2 1 then rows X ! 1 else replicate 1 0)))"
proof -
  let ?x = "\<lparr>shape0 = 2, shape1 = 1, rows = [[1], [0 :: real]]\<rparr>"
  have w: "wf_array ?x" by (simp add: wf_array_def)
  have p: "0 < shape0 ?x" by simp
  from bpf_full_band_and_nyquist_band [OF w p] obtain X x_bpf X_bpf where
    "ft (map_array complex_of_real ?x) None 0 NoNorm = Inr X" "bpf ?x (0, 1) = Inr (?x, X)"
    "bpf ?x (1, 1) = Inr (x_bpf, X_bpf)" "ift_real X_bpf = Inr x_bpf"
    "\<forall>k < shape0 ?x. rows X_bpf ! k =
        (if nyquist_bin (shape0 ?x) k then rows X ! k else replicate (shape1 ?x) 0)"
    by blast
  moreover from this(5) have
    "rows X_bpf ! 0 = (if nyquist_bin 2 0 then rows X ! 0 else replicate 1 0)"
    "rows X_bpf ! 1 = (if nyquist_bin 2 1 then rows X ! 1 else replicate 1 0)"
    by simp_all
  ultimately have "\<exists>X. ft (map_array complex_of_real ?x) None 0 NoNorm = Inr X
     \<and> bpf ?x (0, 1) = Inr (?x, X)
     \<and> (\<exists>x_bpf X_bpf. bpf ?x (1, 1) = Inr (x_bpf, X_bpf)
          \<and> ift_real X_bpf = Inr x_bpf
          \<and> rows X_bpf ! 0 = (if nyquist_bin 2 0 then rows X ! 0 else replicate 1 0)
          \<and> rows X_bpf ! 1 = (if nyquist_bin 2 1 then rows X ! 1 else replicate 1 0))"
    by blast
  with w show ?thesis by simp
qed

section \<open>Properties of the pure-state filter\<close>

lemma minor_add:
  fixes g h :: complex and p q r s :: real
  assumes "(cmod g)\<^sup>2 \<le> p * r" "(cmod h)\<^sup>2 \<le> q * s" "0 \<le> p" "0 \<le> q" "0 \<le> r" "0 \<le> s"
  shows "(cmod (g + h))\<^sup>2 \<le> (p + q) * (r + s)"
proof -
  have g: "cmod g \<le> sqrt (p * r)" using assms(1) by (simp add: real_le_rsqrt)
  have h: "cmod h \<le> sqrt (q * s)" using assms(2) by (simp add: real_le_rsqrt)
  have "cmod (g + h) \<le> sqrt (p * r) + sqrt (q * s)"
    using norm_triangle_ineq [of g h] g h by linarith
  then have "(cmod (g + h))\<^sup>2 \<le> (sqrt (p * r) + sqrt (q * s))\<^sup>2"
    by (intro power_mono) simp_all
  also have "\<dots> = p * r + q * s + 2 * (sqrt (p * r) * sqrt (q * s))"
    using assms by (simp add: power2_sum)
  also have "sqrt (p * r) * sqrt (q * s) = sqrt (p * s) * sqrt (q * r)"
    by (simp add: real_sqrt_mult [symmetric] mult_ac)
  also have "2 * (sqrt (p * s) * sqrt (q * r)) \<le> p * s + q * r"
  proof -
    have "0 \<le> (sqrt (p * s) - sqrt (q * r))\<^sup>2" by simp
    also have "\<dots> = p * s + q * r - 2 * (sqrt (p * s) * sqrt (q * r))"
      using assms by (simp add: power2_diff)
    finally show ?thesis by simp
  qed
  finally show ?thesis by (simp add: algebra_simps)
qed

lemma psd2_zero: "psd2 (\<lambda>a b. 0)"
  by (simp add: psd2_def)

lemma psd2_add:
  assumes "psd2 G" "psd2 H"
  shows "psd2 (\<lambda>a b. G a b + H a b)"
  unfolding psd2_def
proof (intro allI conjI)
  fix a b
  show "Im (G a a + H a a) = 0" using assms by (simp add: psd2_def)
  show "0 \<le> Re (G a a + H a a)" using assms by (simp add: psd2_def)
  have "(cmod (G a b + H a b))\<^sup>2 \<le> (Re (G a a) + Re (H a a)) * (Re (G b b) + Re (H b b))"
    using assms by (intro minor_add) (simp_all add: psd2_def)
  then show "(cmod (G a b + H a b))\<^sup>2 \<le> Re (G a a + H a a) * Re (G b b + H b b)" by simp
qed

lemma psd2_scale:
  assumes "psd2 G" "0 \<le> c"
  shows "psd2 (\<lambda>a b. complex_of_real c * G a b)"
  unfolding psd2_def
proof (intro allI conjI)
  fix a b
  show "Im (complex_of_real c * G a a) = 0" using assms by (simp add: psd2_def)
  show "0 \<le> Re (complex_of_real c * G a a)" using assms by (simp add: psd2_def)
  have "(cmod (G a b))\<^sup>2 \<le> Re (G a a) * Re (G b b)" using assms(1) by (simp add: psd2_def)
  then have "c\<^sup>2 * (cmod (G a b))\<^sup>2 \<le> c\<^sup>2 * (Re (G a a) * Re (G b b))"
    by (intro mult_left_mono) simp_all
  then show "(cmod (complex_of_real c * G a b))\<^sup>2
      \<le> Re (complex_of_real c * G a a) * Re (complex_of_real c * G b b)"
    by (simp add: norm_mult power_mult_distrib power2_eq_square mult_ac)
qed

lemma psd2_outer: "psd2 (\<lambda>a b. v a * cnj (v b))"
  unfolding psd2_def
proof (intro allI conjI)
  fix a b
  have e: "v a * cnj (v a) = complex_of_real ((cmod (v a))\<^sup>2)" for a
    by (rule complex_norm_square [symmetric])
  show "Im (v a * cnj (v a)) = 0" by (simp only: e Im_complex_of_real)
  show "0 \<le> Re (v a * cnj (v a))" by (simp only: e Re_complex_of_real zero_le_power2)
  show "(cmod (v a * cnj (v b)))\<^sup>2 \<le> Re (v a * cnj (v a)) * Re (v b * cnj (v b))"
    by (simp only: e Re_complex_of_real) (simp add: norm_mult power_mult_distrib)
qed

lemma psd2_sum_list:
  assumes "\<And>j. j \<in> set js \<Longrightarrow> psd2 (F j)"
  shows "psd2 (\<lambda>a b. \<Sum>j\<leftarrow>js. F j a b)"
  using assms
proof (induction js)
  case Nil
  then show ?case by (simp add: psd2_zero)
next
  case (Cons j js)
  have "psd2 (\<lambda>a b. F j a b + (\<Sum>j\<leftarrow>js. F j a b))"
    by (intro psd2_add) (simp_all add: Cons)
  then show ?case by simp
qed

lemma triangle_square:
  fixes D :: "nat \<Rightarrow> real"
  shows "(\<Sum>a<d. \<Sum>b\<in>{a..<d}. if a = b then D a * D b else 2 * D a * D b) = (\<Sum>a<d. D a)\<^sup>2"
proof (induction d)
  case 0
  then show ?case by simp
next
  case (Suc d)
  have "(\<Sum>a<Suc d. \<Sum>b\<in>{a..<Suc d}. if a = b then D a * D b else 2 * D a * D b)
      = (\<Sum>a<d. (\<Sum>b\<in>{a..<d}. if a = b then D a * D b else 2 * D a * D b) + 2 * D a * D d) + D d * D d"
  proof -
    have "(\<Sum>b\<in>{a..<Suc d}. if a = b then D a * D b else 2 * D a * D b)
        = (\<Sum>b\<in>{a..<d}. if a = b then D a * D b else 2 * D a * D b) + 2 * D a * D d"
      if "a \<in> {..<d}" for a
      using that by (simp add: sum.atLeastLessThan_Suc)
    then have "(\<Sum>a<d. \<Sum>b\<in>{a..<Suc d}. if a = b then D a * D b else 2 * D a * D b)
        = (\<Sum>a<d. (\<Sum>b\<in>{a..<d}. if a = b then D a * D b else 2 * D a * D b) + 2 * D a * D d)"
      by (rule sum.cong [OF refl])
    then show ?thesis by simp
  qed
  also have "\<dots> = (\<Sum>a<d. D a)\<^sup>2 + 2 * (\<Sum>a<d. D a) * D d + D d * D d"
    by (simp add: sum.distrib Suc.IH sum_distrib_left sum_distrib_right mult_ac)
  also have "\<dots> = (\<Sum>a<Suc d. D a)\<^sup>2" by (simp add: power2_sum power2_eq_square algebra_simps)
  finally show ?case .
qed

lemma square_sum_le:
  fixes D :: "nat \<Rightarrow> real"
  shows "(\<Sum>a<d. D a)\<^sup>2 \<le> real d * (\<Sum>a<d. (D a)\<^sup>2)"
proof -
  have "(\<Sum>a<d. D a)\<^sup>2 = (\<Sum>a<d. \<Sum>b<d. D a * D b)"
    by (simp add: power2_eq_square sum_product)
  also have "\<dots> \<le> (\<Sum>a<d. \<Sum>b<d. ((D a)\<^sup>2 + (D b)\<^sup>2) / 2)"
  proof (intro sum_mono)
    fix a b
    have "0 \<le> (D a - D b)\<^sup>2" by simp
    then show "D a * D b \<le> ((D a)\<^sup>2 + (D b)\<^sup>2) / 2" by (simp add: power2_diff)
  qed
  also have "\<dots> = (\<Sum>a<d. real d * (D a)\<^sup>2 / 2 + (\<Sum>b<d. (D b)\<^sup>2) / 2)"
    by (simp add: sum.distrib add_divide_distrib sum_divide_distrib [symmetric])
  also have "\<dots> = real d * (\<Sum>a<d. (D a)\<^sup>2) / 2 + real d * (\<Sum>b<d. (D b)\<^sup>2) / 2"
    by (simp add: sum.distrib sum_divide_distrib [symmetric] sum_distrib_left [symmetric])
  also have "\<dots> = real d * (\<Sum>a<d. (D a)\<^sup>2)" by simp
  finally show ?thesis .
qed

lemma sum_list_concat_map:
  fixes f :: "'a \<Rightarrow> real list"
  shows "sum_list (concat (map f xs)) = (\<Sum>x\<leftarrow>xs. sum_list (f x))"
  by (induction xs) simp_all

lemma sum_list_Sidx:
  fixes h :: "nat \<times> nat \<Rightarrow> real"
  shows "sum_list (map h (Sidx d)) = (\<Sum>a<d. \<Sum>b\<in>{a..<d}. h (a, b))"
proof -
  have "sum_list (map h (Sidx d)) = (\<Sum>a\<leftarrow>[0..<d]. \<Sum>b\<leftarrow>[a..<d]. h (a, b))"
    by (simp add: Sidx_def map_concat sum_list_concat_map o_def)
  also have "\<dots> = (\<Sum>a<d. \<Sum>b\<in>{a..<d}. h (a, b))"
    by (simp add: interv_sum_list_conv_sum_set_nat atLeast0LessThan)
  finally show ?thesis .
qed

lemma sum_list_index:
  fixes f :: "nat \<Rightarrow> real"
  assumes "\<And>q. q < length xs \<Longrightarrow> f q = h (xs ! q)"
  shows "(\<Sum>q\<leftarrow>[0..<length xs]. f q) = sum_list (map h xs)"
proof -
  have "map f [0..<length xs] = map h xs" by (rule nth_equalityI) (simp_all add: assms)
  then show ?thesis by (simp only:)
qed

lemma trS_of_G:
  assumes "s = map (\<lambda>p. G (fst p) (snd p)) (Sidx d)"
  shows "trS d s = (\<Sum>a<d. Re (G a a))\<^sup>2"
proof -
  let ?g = "\<lambda>p. G (fst p) (snd p)"
  have len: "length s = length (Sidx d)" using assms by simp
  have "(\<Sum>q\<leftarrow>didx d. Re (s ! q))
      = (\<Sum>q\<leftarrow>[0..<length (Sidx d)]. if fst (Sidx d ! q) = snd (Sidx d ! q) then Re (s ! q) else 0)"
    by (simp add: didx_def sum_list_map_filter')
  also have "\<dots> = sum_list (map (\<lambda>p. if fst p = snd p then Re (?g p) else 0) (Sidx d))"
    by (rule sum_list_index) (simp add: assms)
  also have "\<dots> = (\<Sum>a<d. \<Sum>b\<in>{a..<d}. if a = b then Re (G a b) else 0)"
    by (simp add: sum_list_Sidx cong: if_cong)
  also have "\<dots> = (\<Sum>a<d. Re (G a a))"
    by (rule sum.cong [OF refl]) simp
  finally show ?thesis by (simp add: trS_def)
qed

lemma mem_didx: "q < length (Sidx d) \<Longrightarrow> q \<in> set (didx d) \<longleftrightarrow> fst (Sidx d ! q) = snd (Sidx d ! q)"
  by (simp add: didx_def)

lemma norm_square_entry: "Re (z * cnj z * 2) = 2 * (cmod z)\<^sup>2"
proof -
  have "z * cnj z = complex_of_real ((cmod z)\<^sup>2)" by (rule complex_norm_square [symmetric])
  then have "Re (z * cnj z * 2) = Re (complex_of_real ((cmod z)\<^sup>2) * 2)" by (simp only:)
  then show ?thesis by simp
qed

lemma trS2_of_G:
  assumes "s = map (\<lambda>p. G (fst p) (snd p)) (Sidx d)"
  shows "trS2 d s =
     (\<Sum>a<d. \<Sum>b\<in>{a..<d}. if a = b then (cmod (G a b))\<^sup>2 else 2 * (cmod (G a b))\<^sup>2)"
proof -
  let ?g = "\<lambda>p. G (fst p) (snd p)"
  let ?h = "\<lambda>p. if fst p = snd p then (cmod (?g p))\<^sup>2 else 2 * (cmod (?g p))\<^sup>2"
  have len: "length s = length (Sidx d)" using assms by simp
  have "trS2 d s = sum_list (map ?h (Sidx d))"
    unfolding trS2_def len
  proof (rule sum_list_index)
    fix q assume q: "q < length (Sidx d)"
    have e: "Re (s ! q * cnj (s ! q) * 2) = 2 * (cmod (?g (Sidx d ! q)))\<^sup>2"
      using q by (simp only: norm_square_entry assms nth_map)
    show "(if q \<in> set (didx d) then Re (s ! q * cnj (s ! q) * 2) / 2
           else Re (s ! q * cnj (s ! q) * 2)) = ?h (Sidx d ! q)"
      unfolding e mem_didx [OF q] by simp
  qed
  also have "\<dots> = (\<Sum>a<d. \<Sum>b\<in>{a..<d}. if a = b then (cmod (G a b))\<^sup>2 else 2 * (cmod (G a b))\<^sup>2)"
    by (simp add: sum_list_Sidx cong: if_cong)
  finally show ?thesis .
qed

lemma trS2_nonneg: "0 \<le> trS2 d s"
  unfolding trS2_def by (intro sum_list_nonneg) (auto simp: norm_square_entry)

lemma psd_row_bounds:
  assumes "psd_row d s"
  shows "trS d s \<le> real d * trS2 d s" and "trS2 d s \<le> trS d s"
proof -
  from assms obtain G where G: "psd2 G" and s: "s = map (\<lambda>p. G (fst p) (snd p)) (Sidx d)"
    by (auto simp: psd_row_def)
  define D where "D a = Re (G a a)" for a
  have D0: "0 \<le> D a" for a using G by (simp add: psd2_def D_def)
  have diag: "(cmod (G a a))\<^sup>2 = (D a)\<^sup>2" for a
  proof -
    have "Im (G a a) = 0" using G by (simp add: psd2_def)
    then show ?thesis by (simp add: cmod_def D_def)
  qed
  have minor: "(cmod (G a b))\<^sup>2 \<le> D a * D b" for a b using G by (simp add: psd2_def D_def)
  let ?t = "\<lambda>a b. if a = b then (cmod (G a b))\<^sup>2 else 2 * (cmod (G a b))\<^sup>2"
  have T: "trS d s = (\<Sum>a<d. D a)\<^sup>2" using trS_of_G [OF s] by (simp add: D_def)
  have T2: "trS2 d s = (\<Sum>a<d. \<Sum>b\<in>{a..<d}. ?t a b)" by (rule trS2_of_G [OF s])
  have "(\<Sum>a<d. (D a)\<^sup>2) \<le> (\<Sum>a<d. \<Sum>b\<in>{a..<d}. ?t a b)"
  proof (rule sum_mono)
    fix a assume "a \<in> {..<d}"
    then have "a \<in> {a..<d}" by simp
    moreover have "\<And>b. b \<in> {a..<d} \<Longrightarrow> 0 \<le> ?t a b" by simp
    ultimately have "?t a a \<le> (\<Sum>b\<in>{a..<d}. ?t a b)"
      by (intro member_le_sum) simp_all
    then show "(D a)\<^sup>2 \<le> (\<Sum>b\<in>{a..<d}. ?t a b)" by (simp add: diag)
  qed
  then have "real d * (\<Sum>a<d. (D a)\<^sup>2) \<le> real d * trS2 d s"
    unfolding T2 by (intro mult_left_mono) simp_all
  then show "trS d s \<le> real d * trS2 d s"
    using square_sum_le [of D d] unfolding T by linarith
  have "(\<Sum>a<d. \<Sum>b\<in>{a..<d}. ?t a b)
      \<le> (\<Sum>a<d. \<Sum>b\<in>{a..<d}. if a = b then D a * D b else 2 * D a * D b)"
  proof (intro sum_mono)
    fix a b
    show "?t a b \<le> (if a = b then D a * D b else 2 * D a * D b)"
      using minor [of a b] minor [of b b] by auto
  qed
  then show "trS2 d s \<le> trS d s" unfolding T T2 by (simp only: triangle_square)
qed

end
